theory Spec2Isabelle
  imports Complex_Main
begin

section \<open>JavaScript values used by the library\<close>

text \<open>
  The development follows \<^verbatim>\<open>src/dist/dijkstra.js\<close>, the bundle that contains the graph
  class, its priority queue and \<^verbatim>\<open>populateMap\<close>. The older \<^verbatim>\<open>src/libs/index.js\<close> runs on
  the package \<^verbatim>\<open>priorityqueuejs\<close>, which is not part of the repository, and is not modelled.

  Node names are strings. A JavaScript number other than \<open>NaN\<close> is a \<open>double\<close>: a real
  number or one of the two infinities. The addition of two such numbers, which rounds, is
  a parameter \<open>fadd\<close> of the search: what is proved of the search holds for every addition,
  so for the addition of IEEE 754 doubles, which \<open>double_add\<close> below defines. The only
  exception the bundle throws is \<open>TypeError\<close>.
\<close>

type_synonym key = string

datatype error = TypeError

datatype double = NegInf | Fin real | PosInf

text \<open>The order of JavaScript's \<^verbatim>\<open><\<close> on numbers other than \<open>NaN\<close>.\<close>

instantiation double :: linorder
begin

fun less_eq_double :: "double \<Rightarrow> double \<Rightarrow> bool" where
  "less_eq_double NegInf y = True"
| "less_eq_double (Fin x) NegInf = False"
| "less_eq_double (Fin x) (Fin y) = (x \<le> y)"
| "less_eq_double (Fin x) PosInf = True"
| "less_eq_double PosInf NegInf = False"
| "less_eq_double PosInf (Fin y) = False"
| "less_eq_double PosInf PosInf = True"

definition less_double :: "double \<Rightarrow> double \<Rightarrow> bool" where
  "less_double x y \<longleftrightarrow> x \<le> y \<and> \<not> y \<le> x"

instance
proof
  fix x y z :: double
  show "x < y \<longleftrightarrow> x \<le> y \<and> \<not> y \<le> x" by (simp add: less_double_def)
  show "x \<le> x" by (cases x) simp_all
  show "x \<le> y \<Longrightarrow> y \<le> z \<Longrightarrow> x \<le> z" by (cases x; cases y; cases z) simp_all
  show "x \<le> y \<Longrightarrow> y \<le> x \<Longrightarrow> x = y" by (cases x; cases y) simp_all
  show "x \<le> y \<or> y \<le> x" by (cases x; cases y) auto
qed

end

datatype number = NaN | Num double

text \<open>
  A value stored in a \<open>Map\<close> built by \<^verbatim>\<open>populateMap\<close>: a validated cost, or a nested
  \<open>Map\<close>. A \<open>Map\<close> is the list of its entries in insertion order.
\<close>

datatype val = Cost double | Nested "(key \<times> val) list"

type_synonym jsmap = "(key \<times> val) list"

text \<open>
  The plain object handed to the constructor or to \<^verbatim>\<open>addNode\<close>: the list of its own
  properties in the order of \<^verbatim>\<open>Object.keys\<close>. A property value that is not an object
  (or is \<^verbatim>\<open>null\<close>) is a \<open>Leaf\<close> holding what \<^verbatim>\<open>Number(value)\<close> gives.
\<close>

datatype jsobj = Leaf number | Obj "(key \<times> jsobj) list"

text \<open>\<^verbatim>\<open>Map.prototype.set\<close>: an existing key keeps its position, a new key goes last.\<close>

fun map_set :: "key \<Rightarrow> 'v \<Rightarrow> (key \<times> 'v) list \<Rightarrow> (key \<times> 'v) list" where
  "map_set k v [] = [(k, v)]"
| "map_set k v (e # m) = (if fst e = k then (k, v) # m else e # map_set k v m)"

section \<open>populateMap\<close>

fun validateNode :: "number \<Rightarrow> error + double" where
  "validateNode NaN = Inl TypeError"
| "validateNode (Num cost) = (if cost < Fin 0 then Inl TypeError else Inr cost)"

function populateMap :: "jsmap \<Rightarrow> (key \<times> jsobj) list \<Rightarrow> error + jsmap" where
  "populateMap m [] = Inr m"
| "populateMap m ((k, Obj ob) # keys) =
     (case populateMap [] ob of
        Inl e \<Rightarrow> Inl e
      | Inr m' \<Rightarrow> populateMap (map_set k (Nested m') m) keys)"
| "populateMap m ((k, Leaf n) # keys) =
     (case validateNode n of
        Inl e \<Rightarrow> Inl e
      | Inr cost \<Rightarrow> populateMap (map_set k (Cost cost) m) keys)"
  by pat_completeness auto
termination
  by (relation "measure (\<lambda>(m, keys). size_list (size_prod (\<lambda>_. 0) size) keys)") auto

section \<open>PriorityQueue\<close>

record PriorityQueue =
  keys :: "key set"
  queue :: "(key \<times> double) list"

definition pq_new :: PriorityQueue where
  "pq_new = \<lparr>keys = {}, queue = []\<rparr>"

text \<open>
  \<^verbatim>\<open>_sort\<close>: ascending priority. The comparator \<^verbatim>\<open>a.priority - b.priority\<close> is negative,
  zero (or \<open>NaN\<close>, for two infinities) or positive as the order of the two priorities
  says. The sort is taken to be stable; the properties below use only that sorting
  rearranges the entries.
\<close>

definition pq_sort :: "PriorityQueue \<Rightarrow> PriorityQueue" where
  "pq_sort q = q\<lparr>queue := sort_key snd (queue q)\<rparr>"

text \<open>
  \<^verbatim>\<open>set(key, priority)\<close>: the argument is what \<^verbatim>\<open>Number(priority)\<close> gives. The JavaScript
  returns the new length of the queue; here the updated queue is returned.
\<close>

fun pq_set :: "key \<Rightarrow> number \<Rightarrow> PriorityQueue \<Rightarrow> error + PriorityQueue" where
  "pq_set k NaN q = Inl TypeError"
| "pq_set k (Num priority) q =
     Inr (pq_sort
       (if k \<notin> keys q
        then q\<lparr>keys := insert k (keys q), queue := queue q @ [(k, priority)]\<rparr>
        else q\<lparr>queue := map (\<lambda>element. if fst element = k then (fst element, priority)
                                       else element) (queue q)\<rparr>))"

text \<open>\<^verbatim>\<open>next()\<close>: on an empty queue \<^verbatim>\<open>shift()\<close> gives \<^verbatim>\<open>undefined\<close>, whose \<^verbatim>\<open>key\<close> cannot be read.\<close>

definition pq_next :: "PriorityQueue \<Rightarrow> error + ((key \<times> double) \<times> PriorityQueue)" where
  "pq_next q =
     (case queue q of
        [] \<Rightarrow> Inl TypeError
      | element # rest \<Rightarrow> Inr (element, q\<lparr>keys := keys q - {fst element}, queue := rest\<rparr>))"

definition pq_isEmpty :: "PriorityQueue \<Rightarrow> bool" where
  "pq_isEmpty q = (length (queue q) = 0)"

definition pq_has :: "PriorityQueue \<Rightarrow> key \<Rightarrow> bool" where
  "pq_has q k = (k \<in> keys q)"

definition pq_get :: "PriorityQueue \<Rightarrow> key \<Rightarrow> (key \<times> double) option" where
  "pq_get q k = find (\<lambda>element. fst element = k) (queue q)"

section \<open>Graph\<close>

text \<open>
  The state of a \<open>Graph\<close> object is its \<open>Map\<close>; \<open>console\<close> collects the lines the methods
  write with \<^verbatim>\<open>console.log\<close>.
\<close>

record state =
  graph :: jsmap
  console :: "string list"

definition Graph :: "(key \<times> jsobj) list option \<Rightarrow> error + state" where
  "Graph g =
     (case g of
        None \<Rightarrow> Inr \<lparr>graph = [], console = []\<rparr>
      | Some ob \<Rightarrow>
          (case populateMap [] ob of
             Inl e \<Rightarrow> Inl e
           | Inr m \<Rightarrow> Inr \<lparr>graph = m, console = []\<rparr>))"

text \<open>
  \<^verbatim>\<open>addNode\<close> returns the state after the call together with the exception, if one was
  thrown.
\<close>

definition addNode :: "key \<Rightarrow> (key \<times> jsobj) list \<Rightarrow> state \<Rightarrow> (error + unit) \<times> state" where
  "addNode name neighbors s =
     (case populateMap [] neighbors of
        Inl e \<Rightarrow> (Inl e, s)
      | Inr neighbors' \<Rightarrow> (Inr (), s\<lparr>graph := map_set name (Nested neighbors') (graph s)\<rparr>))"

definition addVertex :: "key \<Rightarrow> (key \<times> jsobj) list \<Rightarrow> state \<Rightarrow> (error + unit) \<times> state" where
  "addVertex name neighbors s =
     addNode name neighbors
       (s\<lparr>console := console s @ [''Graph#addVertex is deprecated, use Graph#addNode instead'']\<rparr>)"

subsection \<open>The options argument\<close>

text \<open>
  The third argument of \<^verbatim>\<open>path\<close>: missing, a number, a boolean, a string, or an object. Of
  an object only the truthiness of \<^verbatim>\<open>options.trim\<close>, \<^verbatim>\<open>options.reverse\<close> and
  \<^verbatim>\<open>options.cost\<close> is read.
\<close>

record options =
  trim :: bool
  reverse :: bool
  cost :: bool

datatype optarg = Undefined | NumArg number | BoolArg bool | StrArg string | ObjArg options

text \<open>\<^verbatim>\<open>options = options || {}\<close>, then the three property reads.\<close>

fun truthy :: "optarg \<Rightarrow> bool" where
  "truthy Undefined = False"
| "truthy (NumArg NaN) = False"
| "truthy (NumArg (Num n)) = (n \<noteq> Fin 0)"
| "truthy (BoolArg b) = b"
| "truthy (StrArg s) = (s \<noteq> [])"
| "truthy (ObjArg opts) = True"

text \<open>
  A number or a boolean has none of the three properties; a string inherits
  \<^verbatim>\<open>String.prototype.trim\<close>, a function, which is truthy.
\<close>

fun read_options :: "optarg \<Rightarrow> options" where
  "read_options (ObjArg opts) = opts"
| "read_options (StrArg s) = \<lparr>trim = True, reverse = False, cost = False\<rparr>"
| "read_options other = \<lparr>trim = False, reverse = False, cost = False\<rparr>"

subsection \<open>The search\<close>

record search =
  explored :: "key set"
  frontier :: PriorityQueue
  previous :: "key \<rightharpoonup> key"
  path_var :: "key list"
  totalCost :: double

text \<open>
  \<^verbatim>\<open>node.priority + _cost\<close>, read as a number. Two numbers are added by \<open>fadd\<close>; the sum is
  not \<open>NaN\<close>, since a priority and a cost stored by \<^verbatim>\<open>populateMap\<close> are never negative.
  Adding a \<open>Map\<close> to a number gives a string that is not a number.
\<close>

fun js_add :: "(double \<Rightarrow> double \<Rightarrow> double) \<Rightarrow> double \<Rightarrow> val \<Rightarrow> number" where
  "js_add fadd p (Cost c) = Num (fadd p c)"
| "js_add fadd p (Nested m) = NaN"

fun js_less :: "number \<Rightarrow> double \<Rightarrow> bool" where
  "js_less NaN b = False"
| "js_less (Num a) b = (a < b)"

text \<open>
  \<^verbatim>\<open>this.graph.get(node.key) || new Map()\<close> followed by \<^verbatim>\<open>neighbors.forEach\<close>: a missing
  entry and the number 0 are falsy; any other number has no \<^verbatim>\<open>forEach\<close>.
\<close>

definition neighbors_of :: "jsmap \<Rightarrow> key \<Rightarrow> error + jsmap" where
  "neighbors_of g k =
     (case map_of g k of
        None \<Rightarrow> Inr []
      | Some (Nested m) \<Rightarrow> Inr m
      | Some (Cost c) \<Rightarrow> (if c = Fin 0 then Inr [] else Inl TypeError))"

text \<open>The callback of \<^verbatim>\<open>neighbors.forEach\<close>, for the extracted entry \<open>node\<close>.\<close>

definition relax ::
  "(double \<Rightarrow> double \<Rightarrow> double) \<Rightarrow> key \<times> double \<Rightarrow> key \<times> val \<Rightarrow> search \<Rightarrow> error + search" where
  "relax fadd node nb st =
     (let n = fst nb; c = snd nb in
      if n \<in> explored st then Inr st
      else if \<not> pq_has (frontier st) n then
        (case pq_set n (js_add fadd (snd node) c) (frontier st) of
           Inl e \<Rightarrow> Inl e
         | Inr f \<Rightarrow> Inr (st\<lparr>previous := (previous st)(n \<mapsto> fst node), frontier := f\<rparr>))
      else
        (case pq_get (frontier st) n of
           None \<Rightarrow> Inl TypeError
         | Some element \<Rightarrow>
             (let frontierPriority = snd element; nodeCost = js_add fadd (snd node) c in
              if js_less nodeCost frontierPriority then
                (case pq_set n nodeCost (frontier st) of
                   Inl e \<Rightarrow> Inl e
                 | Inr f \<Rightarrow> Inr (st\<lparr>previous := (previous st)(n \<mapsto> fst node), frontier := f\<rparr>))
              else Inr st)))"

fun forEach ::
  "(double \<Rightarrow> double \<Rightarrow> double) \<Rightarrow> key \<times> double \<Rightarrow> jsmap \<Rightarrow> search \<Rightarrow> error + search" where
  "forEach fadd node [] st = Inr st"
| "forEach fadd node (nb # nbs) st =
     (case relax fadd node nb st of
        Inl e \<Rightarrow> Inl e
      | Inr st' \<Rightarrow> forEach fadd node nbs st')"

text \<open>
  The inner \<^verbatim>\<open>while (previous.has(_nodeKey))\<close> loop, which pushes the keys it visits onto
  \<open>path\<close>. The result is \<open>None\<close> when the loop does not end.
\<close>

partial_function (option) walk_back :: "(key \<rightharpoonup> key) \<Rightarrow> key \<Rightarrow> key list \<Rightarrow> key list option" where
  "walk_back prev nodeKey p =
     (case prev nodeKey of
        None \<Rightarrow> Some p
      | Some nodeKey' \<Rightarrow> walk_back prev nodeKey' (p @ [nodeKey]))"

text \<open>The body \<^verbatim>\<open>_loop\<close>; \<open>Break\<close> is its return value \<^verbatim>\<open>"break"\<close>.\<close>

datatype 'a completion = Continue 'a | Break 'a

definition loop_body ::
  "(double \<Rightarrow> double \<Rightarrow> double) \<Rightarrow> jsmap \<Rightarrow> key \<Rightarrow> search \<Rightarrow>
     (error + search completion) option" where
  "loop_body fadd g goal st =
     (case pq_next (frontier st) of
        Inl e \<Rightarrow> Some (Inl e)
      | Inr (node, f) \<Rightarrow>
          if fst node = goal then
            (case walk_back (previous st) (fst node) (path_var st) of
               None \<Rightarrow> None
             | Some p \<Rightarrow> Some (Inr (Break (st\<lparr>frontier := f, totalCost := snd node, path_var := p\<rparr>))))
          else
            (case neighbors_of g (fst node) of
               Inl e \<Rightarrow> Some (Inl e)
             | Inr neighbors \<Rightarrow>
                 (case forEach fadd node neighbors
                         (st\<lparr>frontier := f, explored := insert (fst node) (explored st)\<rparr>) of
                    Inl e \<Rightarrow> Some (Inl e)
                  | Inr st' \<Rightarrow> Some (Inr (Continue st')))))"

declare walk_back.simps [code]

text \<open>\<^verbatim>\<open>while (!frontier.isEmpty())\<close>; \<open>None\<close> when the loop does not end.\<close>

partial_function (option) search_loop ::
  "(double \<Rightarrow> double \<Rightarrow> double) \<Rightarrow> jsmap \<Rightarrow> key \<Rightarrow> search \<Rightarrow> (error + search) option" where
  "search_loop fadd g goal st =
     (if pq_isEmpty (frontier st) then Some (Inr st)
      else
        (case loop_body fadd g goal st of
           None \<Rightarrow> None
         | Some (Inl e) \<Rightarrow> Some (Inl e)
         | Some (Inr (Break st')) \<Rightarrow> Some (Inr st')
         | Some (Inr (Continue st')) \<Rightarrow> search_loop fadd g goal st'))"

declare search_loop.simps [code]

subsection \<open>path and shortestPath\<close>

text \<open>What \<^verbatim>\<open>path\<close> returns: \<^verbatim>\<open>null\<close>, an array, or an object with \<open>path\<close> and \<open>cost\<close>.\<close>

datatype result = Null | Path "key list" | WithCost "key list option" double

definition path ::
  "(double \<Rightarrow> double \<Rightarrow> double) \<Rightarrow> jsmap \<Rightarrow> key \<Rightarrow> key \<Rightarrow> optarg \<Rightarrow> (error + result) option" where
  "path fadd g start goal opts =
     (let options = (if truthy opts then read_options opts else read_options Undefined) in
      if length g = 0 then
        Some (Inr (if cost options then WithCost None (Fin 0) else Null))
      else
        (case pq_set start (Num (Fin 0)) pq_new of
           Inl e \<Rightarrow> Some (Inl e)
         | Inr f \<Rightarrow>
             (case search_loop fadd g goal
                     \<lparr>explored = {}, frontier = f, previous = Map.empty,
                      path_var = [], totalCost = Fin 0\<rparr> of
                None \<Rightarrow> None
              | Some (Inl e) \<Rightarrow> Some (Inl e)
              | Some (Inr st) \<Rightarrow>
                  if length (path_var st) = 0 then
                    Some (Inr (if cost options then WithCost None (Fin 0) else Null))
                  else
                    (let p = (if trim options then tl (path_var st)
                              else path_var st @ [start]);
                         p = (if \<not> reverse options then rev p else p)
                     in Some (Inr (if cost options then WithCost (Some p) (totalCost st)
                                   else Path p))))))"

definition shortestPath ::
  "(double \<Rightarrow> double \<Rightarrow> double) \<Rightarrow> key \<Rightarrow> key \<Rightarrow> optarg \<Rightarrow> state \<Rightarrow>
     (error + result) option \<times> state" where
  "shortestPath fadd start goal opts s =
     (path fadd (graph s) start goal opts,
      s\<lparr>console := console s @ [''Graph#shortestPath is deprecated, use Graph#path instead'']\<rparr>)"

section \<open>Notions used to state the properties\<close>

text \<open>
  An input object has an invalid cost when, at any depth, some leaf is negative or is not
  numeric, that is \<^verbatim>\<open>Number(value)\<close> is \<open>NaN\<close>.
\<close>

fun invalid :: "jsobj \<Rightarrow> bool" and invalid_props :: "(key \<times> jsobj) list \<Rightarrow> bool" where
  "invalid (Leaf NaN) = True"
| "invalid (Leaf (Num c)) = (c < Fin 0)"
| "invalid (Obj ob) = invalid_props ob"
| "invalid_props [] = False"
| "invalid_props (kv # kvs) = (invalid (snd kv) \<or> invalid_props kvs)"

text \<open>Applying a function to the sequence inside a result of \<^verbatim>\<open>path\<close>.\<close>

fun map_result :: "(key list \<Rightarrow> key list) \<Rightarrow> result \<Rightarrow> result" where
  "map_result f Null = Null"
| "map_result f (Path p) = Path (f p)"
| "map_result f (WithCost p c) = WithCost (map_option f p) c"

text \<open>The sequence inside a result, if there is one.\<close>

fun sequence_of :: "result \<Rightarrow> key list option" where
  "sequence_of Null = None"
| "sequence_of (Path p) = Some p"
| "sequence_of (WithCost p c) = p"

subsection \<open>The queue\<close>

text \<open>
  The two fields of a queue agree and no key has two entries. The queue is private to
  \<^verbatim>\<open>path\<close>, which creates it and changes it only by \<^verbatim>\<open>set\<close> and \<^verbatim>\<open>next\<close>; \<open>pq_calls\<close> runs
  a sequence of such calls and stops at the first exception.
\<close>

definition pq_inv :: "PriorityQueue \<Rightarrow> bool" where
  "pq_inv q \<longleftrightarrow> keys q = fst ` set (queue q) \<and> distinct (map fst (queue q))"

datatype pq_call = Set key number | Next

fun pq_calls :: "pq_call list \<Rightarrow> PriorityQueue \<Rightarrow> error + PriorityQueue" where
  "pq_calls [] q = Inr q"
| "pq_calls (Set k p # cs) q =
     (case pq_set k p q of Inl e \<Rightarrow> Inl e | Inr q' \<Rightarrow> pq_calls cs q')"
| "pq_calls (Next # cs) q =
     (case pq_next q of Inl e \<Rightarrow> Inl e | Inr (element, q') \<Rightarrow> pq_calls cs q')"

subsection \<open>Edges and routes\<close>

text \<open>
  The entries \<^verbatim>\<open>forEach\<close> visits at a node; \<open>is_edge g u v c\<close> says that the \<open>Map\<close> of \<open>u\<close>
  lists \<open>v\<close> with the cost \<open>c\<close>. \<open>route fadd g acc p c\<close> says that \<open>p\<close> is a non-empty sequence
  of nodes, each joined to the next by an edge, and that adding the costs of these edges
  to \<open>acc\<close> one after the other, in the order of \<open>p\<close> and with the addition \<open>fadd\<close>, gives
  \<open>c\<close>.
\<close>

definition adjacent :: "jsmap \<Rightarrow> key \<Rightarrow> jsmap" where
  "adjacent g u = (case neighbors_of g u of Inl e \<Rightarrow> [] | Inr m \<Rightarrow> m)"

definition is_edge :: "jsmap \<Rightarrow> key \<Rightarrow> key \<Rightarrow> double \<Rightarrow> bool" where
  "is_edge g u v c \<longleftrightarrow> (v, Cost c) \<in> set (adjacent g u)"

fun route ::
  "(double \<Rightarrow> double \<Rightarrow> double) \<Rightarrow> jsmap \<Rightarrow> double \<Rightarrow> key list \<Rightarrow> double \<Rightarrow> bool" where
  "route fadd g acc [] c = False"
| "route fadd g acc [v] c = (c = acc)"
| "route fadd g acc (u # v # vs) c =
     (\<exists>e \<in> set (adjacent g u). fst e = v \<and>
        (case snd e of Cost d \<Rightarrow> route fadd g (fadd acc d) (v # vs) c | Nested m \<Rightarrow> False))"

definition edges :: "jsmap \<Rightarrow> (key \<times> key) set" where
  "edges g = {(u, v). \<exists>c. is_edge g u v c}"

text \<open>
  A graph in the shape of the data model: every node is mapped to a \<open>Map\<close> from nodes to
  costs, with no nested group.
\<close>

definition flat :: "jsmap \<Rightarrow> bool" where
  "flat g = list_all (\<lambda>node. case snd node of
                Cost c \<Rightarrow> False
              | Nested m \<Rightarrow> list_all (\<lambda>nb. case snd nb of Cost c \<Rightarrow> True
                                                      | Nested m' \<Rightarrow> False) m) g"

text \<open>The nodes that occur as the target of some entry.\<close>

definition targets :: "jsmap \<Rightarrow> key set" where
  "targets g = (\<Union>node \<in> set g. case snd node of Cost c \<Rightarrow> {} | Nested m \<Rightarrow> fst ` set m)"

text \<open>The example graph of the specification.\<close>

text \<open>
  Addition without rounding. The addition of doubles agrees with it whenever the exact sum
  is a double, as it is for the small whole numbers of the examples below.
\<close>

fun exact_add :: "double \<Rightarrow> double \<Rightarrow> double" where
  "exact_add (Fin x) (Fin y) = Fin (x + y)"
| "exact_add PosInf y = PosInf"
| "exact_add x PosInf = PosInf"
| "exact_add NegInf y = NegInf"
| "exact_add x NegInf = NegInf"

text \<open>
  The addition of IEEE 754 doubles. A real number is rounded to the nearest multiple of
  the unit in the last place of its binade (53 significant bits, exponents from -1022),
  a tie to the multiple with an even significand, and from \<open>2 ^ 1024\<close> on to an infinity.
  The sum of the two infinities, which is \<open>NaN\<close>, does not arise in \<^verbatim>\<open>path\<close>, where neither
  argument is negative; it is given as \<open>PosInf\<close>.
\<close>

definition round_even :: "real \<Rightarrow> int" where
  "round_even x =
     (let f = \<lfloor>x\<rfloor>; r = x - of_int f in
      if r < 1 / 2 then f else if 1 / 2 < r then f + 1 else if even f then f else f + 1)"

definition double_round :: "real \<Rightarrow> double" where
  "double_round x =
     (if x = 0 then Fin 0
      else
        (let e = max \<lfloor>log 2 \<bar>x\<bar>\<rfloor> (- 1022);
             ulp = 2 powr (of_int e - 52);
             y = of_int (round_even (x / ulp)) * ulp
         in if 2 ^ 1024 \<le> y then PosInf else if y \<le> - (2 ^ 1024) then NegInf else Fin y))"

fun double_add :: "double \<Rightarrow> double \<Rightarrow> double" where
  "double_add (Fin x) (Fin y) = double_round (x + y)"
| "double_add PosInf y = PosInf"
| "double_add x PosInf = PosInf"
| "double_add NegInf y = NegInf"
| "double_add x NegInf = NegInf"

definition example_graph :: jsmap where
  "example_graph =
     [(''A'', Nested [(''B'', Cost (Fin 1)), (''C'', Cost (Fin 4))]),
      (''B'', Nested [(''C'', Cost (Fin 1))]),
      (''C'', Nested [])]"

subsection \<open>The invariant of the search\<close>

text \<open>The state in which \<^verbatim>\<open>path\<close> enters its loop: the frontier holds \<open>start\<close> at priority 0.\<close>

definition seeded :: "key \<Rightarrow> search" where
  "seeded start = \<lparr>explored = {}, frontier = \<lparr>keys = {start}, queue = [(start, Fin 0)]\<rparr>,
                   previous = Map.empty, path_var = [], totalCost = Fin 0\<rparr>"

text \<open>
  \<open>back_chain fadd g start prev E n ns d\<close>: following the back-pointers from the explored
  node \<open>n\<close> visits the nodes \<open>ns\<close>, all explored, and ends at \<open>start\<close>; every back-pointer is
  an edge of the graph, and adding the costs of these edges to 0, from \<open>start\<close> on, gives
  \<open>d\<close>.
\<close>

inductive back_chain ::
  "(double \<Rightarrow> double \<Rightarrow> double) \<Rightarrow> jsmap \<Rightarrow> key \<Rightarrow> (key \<rightharpoonup> key) \<Rightarrow> key set \<Rightarrow>
     key \<Rightarrow> key list \<Rightarrow> double \<Rightarrow> bool"
  for fadd :: "double \<Rightarrow> double \<Rightarrow> double" and g :: jsmap and start :: key
    and prev :: "key \<rightharpoonup> key" and E :: "key set" where
  chain_start: "prev start = None \<Longrightarrow> start \<in> E \<Longrightarrow> back_chain fadd g start prev E start [] (Fin 0)"
| chain_step: "prev n = Some p \<Longrightarrow> n \<in> E \<Longrightarrow> back_chain fadd g start prev E p ns d \<Longrightarrow>
     is_edge g p n c \<Longrightarrow> back_chain fadd g start prev E n (n # ns) (fadd d c)"

text \<open>
  The invariant of the loop once \<open>start\<close> has been explored: every entry of the frontier is
  an unexplored node whose back-pointer is an explored node with a chain, and whose
  priority is the cost of that chain plus the cost of the last edge.
\<close>

definition loop_inv :: "(double \<Rightarrow> double \<Rightarrow> double) \<Rightarrow> jsmap \<Rightarrow> key \<Rightarrow> search \<Rightarrow> bool" where
  "loop_inv fadd g start st \<longleftrightarrow>
     pq_inv (frontier st) \<and> path_var st = [] \<and> previous st start = None \<and>
     start \<in> explored st \<and>
     (\<forall>e \<in> set (queue (frontier st)).
        fst e \<notin> explored st \<and> fst e \<in> targets g \<and>
        (\<exists>p ns d c. previous st (fst e) = Some p \<and>
           back_chain fadd g start (previous st) (explored st) p ns d \<and>
           is_edge g p (fst e) c \<and> snd e = fadd d c)) \<and>
     (\<forall>n \<in> explored st. \<exists>ns d. back_chain fadd g start (previous st) (explored st) n ns d)"

text \<open>The invariant while the neighbours of the entry \<open>(x, q)\<close> are visited.\<close>

definition relaxing ::
  "(double \<Rightarrow> double \<Rightarrow> double) \<Rightarrow> jsmap \<Rightarrow> key \<Rightarrow> search \<Rightarrow> key \<Rightarrow> double \<Rightarrow> bool" where
  "relaxing fadd g start st x q \<longleftrightarrow>
     loop_inv fadd g start st \<and>
     (\<exists>ns. back_chain fadd g start (previous st) (explored st) x ns q)"

text \<open>What holds of the state the loop ends in.\<close>

definition final ::
  "(double \<Rightarrow> double \<Rightarrow> double) \<Rightarrow> jsmap \<Rightarrow> key \<Rightarrow> key \<Rightarrow> search \<Rightarrow> bool" where
  "final fadd g start goal st \<longleftrightarrow>
     path_var st = [] \<or>
     (\<exists>ns. path_var st = goal # ns \<and> start \<notin> set ns \<and> goal \<notin> set ns \<and> start \<noteq> goal \<and>
        route fadd g (Fin 0) (start # rev ns @ [goal]) (totalCost st))"

section \<open>Construction and validation\<close>

lemma error_is_TypeError [simp]: "(e = TypeError) = True"
  by (cases e) simp

lemma less_double_simps [simp]:
  "Fin x < Fin y \<longleftrightarrow> x < y" "NegInf < Fin y" "Fin x < PosInf" "NegInf < PosInf"
  "\<not> Fin x < NegInf" "\<not> PosInf < d" "\<not> d < NegInf"
  by (cases d; auto simp: less_double_def)+

lemma populateMap_invalid: "invalid_props ob \<Longrightarrow> populateMap m ob = Inl TypeError"
  by (induction m ob rule: populateMap.induct) (auto split: sum.splits elim: validateNode.elims)

lemma populateMap_valid: "\<not> invalid_props ob \<Longrightarrow> \<exists>m'. populateMap m ob = Inr m'"
  by (induction m ob rule: populateMap.induct) (auto split: sum.splits elim: validateNode.elims)

text \<open>
  C6. When the neighbours object holds a negative or non-numeric cost at any nesting depth,
  \<^verbatim>\<open>addNode\<close> throws the \<open>TypeError\<close> of \<^verbatim>\<open>validateNode\<close> and the state of the graph is
  what it was before the call.
\<close>

theorem addNode_invalid_cost:
  "invalid_props neighbors \<Longrightarrow> addNode name neighbors s = (Inl TypeError, s)"
  by (simp add: addNode_def populateMap_invalid)

theorem addNode_invalid_cost_witness:
  "invalid_props [(''B'', Obj [(''C'', Leaf (Num (Fin (- 1))))])] \<and>
   addNode ''A'' [(''B'', Obj [(''C'', Leaf (Num (Fin (- 1))))])]
       \<lparr>graph = [(''A'', Nested [])], console = []\<rparr>
     = (Inl TypeError, \<lparr>graph = [(''A'', Nested [])], console = []\<rparr>)"
  using addNode_invalid_cost [of "[(''B'', Obj [(''C'', Leaf (Num (Fin (- 1))))])]" "''A''"
      "\<lparr>graph = [(''A'', Nested [])], console = []\<rparr>"]
  by simp

section \<open>Options\<close>

lemma path_options_cong:
  "(if truthy a then read_options a else read_options Undefined) =
   (if truthy b then read_options b else read_options Undefined) \<Longrightarrow>
   path fadd g start goal a = path fadd g start goal b"
  by (simp add: path_def)

text \<open>
  C7. With \<open>reverse\<close> set, \<^verbatim>\<open>path\<close> returns the reverse of the sequence it returns with
  \<open>reverse\<close> unset and the other arguments the same; \<^verbatim>\<open>null\<close>, the cost and an exception
  are the same in both calls.
\<close>

theorem path_reverse:
  "path fadd g start goal (ObjArg (opts\<lparr>reverse := True\<rparr>)) =
     map_option (map_sum id (map_result rev))
       (path fadd g start goal (ObjArg (opts\<lparr>reverse := False\<rparr>)))"
  by (simp add: path_def Let_def split: option.splits sum.splits)

text \<open>
  C8 as stated fails: \<^verbatim>\<open>path\<close> does not validate its options. Called with the number 5
  as options it returns the route, as it does without options.
\<close>

theorem path_invalid_options_counterexample:
  "path exact_add [(''A'', Nested [(''B'', Cost (Fin 1))])] ''A'' ''B'' (NumArg (Num (Fin 5))) =
     Some (Inr (Path [''A'', ''B'']))"
  by code_simp

text \<open>
  C8, amended. An options argument that is not an object never makes \<^verbatim>\<open>path\<close> fail: a
  number, a boolean or the empty string is treated as missing options, and a non-empty
  string as options with only \<open>trim\<close> set.
\<close>

theorem path_options_not_validated:
  "path fadd g start goal (NumArg n) = path fadd g start goal Undefined \<and>
   path fadd g start goal (BoolArg b) = path fadd g start goal Undefined \<and>
   path fadd g start goal (StrArg []) = path fadd g start goal Undefined \<and>
   path fadd g start goal (StrArg (c # cs)) =
     path fadd g start goal (ObjArg \<lparr>trim = True, reverse = False, cost = False\<rparr>)"
  by (cases n) (auto intro!: path_options_cong)

text \<open>
  C10. \<^verbatim>\<open>shortestPath\<close> returns what \<^verbatim>\<open>path\<close> returns for the same arguments and leaves
  the graph as it was; it only writes a deprecation line to the console.
\<close>

theorem shortestPath_alias:
  "fst (shortestPath fadd start goal opts s) = path fadd (graph s) start goal opts \<and>
   graph (snd (shortestPath fadd start goal opts s)) = graph s"
  by (simp add: shortestPath_def)

section \<open>A query from a node to itself\<close>

lemma search_start_is_goal:
  "search_loop fadd g start
     \<lparr>explored = {}, frontier = pq_sort \<lparr>keys = {start}, queue = [(start, Fin 0)]\<rparr>,
      previous = Map.empty, path_var = [], totalCost = Fin 0\<rparr>
   = Some (Inr \<lparr>explored = {}, frontier = \<lparr>keys = {}, queue = []\<rparr>,
                previous = Map.empty, path_var = [], totalCost = Fin 0\<rparr>)"
  apply (subst search_loop.simps)
  apply (simp add: pq_isEmpty_def pq_sort_def loop_body_def pq_next_def)
  apply (subst walk_back.simps)
  apply simp
  done

text \<open>
  C2. The code does not do what the claim says. For \<open>start = goal\<close> the first entry
  extracted is the goal: the goal branch of the loop runs and sets the total cost to 0,
  but the walk along the back-pointers pushes nothing, and the test \<^verbatim>\<open>!path.length\<close>, which
  the code comments as the case that no path can be found, then returns the no-path marker
  before \<open>start\<close> is appended. On the graph built from \<^verbatim>\<open>{A: {B: 1}, B: {}}\<close> the call
  \<^verbatim>\<open>path('A', 'A')\<close> returns \<^verbatim>\<open>null\<close>, and \<open>path: null\<close> with cost 0 when the cost is requested,
  where the claim gives the sequence of A alone with cost 0.
\<close>

theorem path_start_to_start_null:
  "path exact_add [(''A'', Nested [(''B'', Cost (Fin 1))]), (''B'', Nested [])] ''A'' ''A''
     (ObjArg \<lparr>trim = False, reverse = False, cost = False\<rparr>) = Some (Inr Null) \<and>
   path exact_add [(''A'', Nested [(''B'', Cost (Fin 1))]), (''B'', Nested [])] ''A'' ''A''
     (ObjArg \<lparr>trim = False, reverse = False, cost = True\<rparr>) =
       Some (Inr (WithCost None (Fin 0)))"
  by code_simp

text \<open>The same happens on every graph, also when an edge leads from the node to itself.\<close>

lemma start_is_goal_no_path:
  "path fadd g start start (ObjArg \<lparr>trim = t, reverse = r, cost = False\<rparr>) = Some (Inr Null) \<and>
   path fadd g start start (ObjArg \<lparr>trim = t, reverse = r, cost = True\<rparr>) =
     Some (Inr (WithCost None (Fin 0)))"
  by (simp add: path_def Let_def pq_new_def search_start_is_goal)

section \<open>The addition of doubles\<close>

text \<open>
  The addition of doubles is exact on whole numbers as long as the sum is at most \<open>2 ^ 53\<close>
  in absolute value; \<open>2 ^ 53 + 1\<close> is the first whole number that is rounded.
\<close>

lemma round_even_of_int: "round_even (of_int n) = n"
  by (simp add: round_even_def)

lemma double_round_int:
  assumes "x \<in> \<int>" "\<bar>x\<bar> \<le> 2 ^ 53"
  shows "double_round x = Fin x"
proof (cases "x = 0")
  case True
  then show ?thesis by (simp add: double_round_def)
next
  case False
  from assms(1) obtain m :: int where m: "x = of_int m" by (auto elim: Ints_cases)
  with False have "m \<noteq> 0" by auto
  then have "1 \<le> \<bar>m\<bar>" by linarith
  then have "(1::real) \<le> of_int \<bar>m\<bar>" by (simp only: of_int_1_le_iff)
  then have one: "1 \<le> \<bar>x\<bar>" unfolding m by simp
  define e where "e = \<lfloor>log 2 \<bar>x\<bar>\<rfloor>"
  from one have "0 \<le> log 2 \<bar>x\<bar>" by simp
  then have e0: "0 \<le> e" by (simp add: e_def)
  from one assms(2) have "log 2 \<bar>x\<bar> \<le> log 2 (2 ^ 53)" by (subst log_le_cancel_iff) auto
  then have "log 2 \<bar>x\<bar> \<le> 53" by (simp only: log_pow_cancel)
  then have e53: "e \<le> 53" unfolding e_def by (simp add: floor_le_iff)
  define ulp :: real where "ulp = 2 powr (of_int e - 52)"
  have ulp_pos: "0 < ulp" by (simp add: ulp_def)
  have "\<exists>j::int. x / ulp = of_int j"
  proof (cases "e \<le> 52")
    case True
    with e0 obtain k :: nat where k: "52 - e = int k"
      using nonneg_int_cases [of "52 - e"] by auto
    have "of_int e - 52 = - real k" using k by linarith
    then have "ulp = 1 / 2 ^ k" by (simp add: ulp_def powr_minus powr_realpow divide_simps)
    then have "x / ulp = of_int (m * 2 ^ k)" by (simp add: m)
    then show ?thesis ..
  next
    case False
    with e53 have e: "e = 53" by simp
    then have "2 powr 53 \<le> \<bar>x\<bar>"
      using one by (simp add: e_def floor_eq_iff le_log_iff)
    then have ax: "\<bar>x\<bar> = 2 ^ 53" using assms(2) by simp
    have "ulp = 2" by (simp add: ulp_def e)
    moreover from ax have "(of_int \<bar>m\<bar> :: real) = of_int (2 ^ 53)" unfolding m by simp
    then have "\<bar>m\<bar> = 2 ^ 53" by (simp only: of_int_eq_iff)
    then have "even \<bar>m\<bar>" by simp
    then have "even m" by simp
    then have "m = 2 * (m div 2)" by simp
    then have "x = 2 * of_int (m div 2)" unfolding m by (metis of_int_mult of_int_numeral)
    then have "x / 2 = of_int (m div 2)" by simp
    ultimately show ?thesis by auto
  qed
  then obtain j :: int where j: "x / ulp = of_int j" ..
  have "of_int (round_even (x / ulp)) * ulp = x / ulp * ulp"
    unfolding j round_even_of_int ..
  with ulp_pos have y: "of_int (round_even (x / ulp)) * ulp = x" by simp
  have "(2::real) ^ 53 < 2 ^ 1024" by simp
  with assms(2) have "x < 2 ^ 1024" "- (2 ^ 1024) < x" by linarith+
  with False y e0 show ?thesis
    unfolding double_round_def Let_def e_def [symmetric]
    by (simp add: max_def ulp_def)
qed

lemma double_add_exact:
  "x \<in> \<int> \<Longrightarrow> y \<in> \<int> \<Longrightarrow> \<bar>x + y\<bar> \<le> 2 ^ 53 \<Longrightarrow>
   double_add (Fin x) (Fin y) = exact_add (Fin x) (Fin y)"
  by (simp add: double_round_int)

lemma floor_log2_above_2_53: "\<lfloor>log 2 9007199254740993\<rfloor> = 53"
  by (subst floor_log_eq_powr_iff) simp_all

lemma double_round_above_2_53: "double_round 9007199254740993 = Fin 9007199254740992"
  by (simp add: double_round_def floor_log2_above_2_53 round_even_def Let_def)

section \<open>The queue keeps one entry for each key\<close>

lemma distinct_map_insort_key:
  "distinct (map f (insort_key g x xs)) \<longleftrightarrow> f x \<notin> f ` set xs \<and> distinct (map f xs)"
  by (induction xs) (auto simp: set_insort_key)

lemma distinct_map_sort_key: "distinct (map f (sort_key g xs)) \<longleftrightarrow> distinct (map f xs)"
  by (induction xs) (simp_all add: distinct_map_insort_key)

lemma pq_inv_new: "pq_inv pq_new"
  by (simp add: pq_inv_def pq_new_def)

lemma map_fst_update:
  "map fst (map (\<lambda>element. if fst element = k then (fst element, p) else element) xs) = map fst xs"
  by (induction xs) auto

lemma set_update_entry:
  "k \<in> fst ` set xs \<Longrightarrow>
   set (map (\<lambda>element. if fst element = k then (fst element, p) else element) xs) =
     insert (k, p) {e \<in> set xs. fst e \<noteq> k}"
proof -
  let ?f = "\<lambda>element. if fst element = k then (fst element, p) else element"
  assume "k \<in> fst ` set xs"
  then obtain e where e: "e \<in> set xs" "fst e = k" by auto
  have "?f ` set xs = insert (k, p) {e \<in> set xs. fst e \<noteq> k}"
  proof (intro set_eqI iffI)
    fix x assume "x \<in> ?f ` set xs"
    then show "x \<in> insert (k, p) {e \<in> set xs. fst e \<noteq> k}"
      by (auto split: if_splits)
  next
    fix x assume x: "x \<in> insert (k, p) {e \<in> set xs. fst e \<noteq> k}"
    show "x \<in> ?f ` set xs"
    proof (cases "x = (k, p)")
      case True
      with e have "x = ?f e" by simp
      with e show ?thesis by blast
    next
      case False
      with x have "x \<in> set xs" "fst x \<noteq> k" by auto
      then have "x = ?f x" by simp
      with \<open>x \<in> set xs\<close> show ?thesis by blast
    qed
  qed
  then show ?thesis by simp
qed

lemma fst_set_update:
  "fst ` set (map (\<lambda>element. if fst element = k then (fst element, p) else element) xs) =
   fst ` set xs"
  by (induction xs) auto

lemma pq_set_inv:
  assumes "pq_inv q" "pq_set k (Num p) q = Inr q'"
  shows "pq_inv q'"
    and "keys q' = insert k (keys q)"
    and "set (queue q') = insert (k, p) {e \<in> set (queue q). fst e \<noteq> k}"
proof -
  let ?upd = "\<lambda>element. if fst element = k then (fst element, p) else element"
  from assms(1) have ks: "keys q = fst ` set (queue q)" and d: "distinct (map fst (queue q))"
    by (simp_all add: pq_inv_def)
  have "pq_inv q' \<and> keys q' = insert k (keys q) \<and>
    set (queue q') = insert (k, p) {e \<in> set (queue q). fst e \<noteq> k}"
  proof (cases "k \<in> keys q")
    case True
    with assms(2) have q': "q' = q\<lparr>queue := sort_key snd (map ?upd (queue q))\<rparr>"
      by (auto simp: pq_sort_def)
    have "fst ` set (queue q') = fst ` set (queue q)"
      unfolding q' using fst_set_update [of k p "queue q"] by simp
    moreover have "distinct (map fst (queue q'))"
    proof -
      have qq: "queue q' = sort_key snd (map ?upd (queue q))" by (simp add: q')
      have "distinct (map fst (queue q')) = distinct (map fst (map ?upd (queue q)))"
        unfolding qq by (rule distinct_map_sort_key)
      also have "\<dots> = distinct (map fst (queue q))" by (simp only: map_fst_update)
      finally show ?thesis using d by simp
    qed
    ultimately have "pq_inv q'" using ks q' by (simp add: pq_inv_def)
    moreover have "keys q' = insert k (keys q)" using True q' by auto
    moreover from True ks have "k \<in> fst ` set (queue q)" by simp
    from set_update_entry [OF this, of p]
    have "set (queue q') = insert (k, p) {e \<in> set (queue q). fst e \<noteq> k}"
      unfolding q' by simp
    ultimately show ?thesis by simp
  next
    case False
    with assms(2) have q': "q' = \<lparr>keys = insert k (keys q), queue = sort_key snd (queue q @ [(k, p)])\<rparr>"
      by (auto simp: pq_sort_def)
    from False ks have nk: "k \<notin> fst ` set (queue q)" by simp
    with d ks have "pq_inv q'"
      unfolding q' by (simp add: pq_inv_def distinct_map_sort_key)
    moreover have "keys q' = insert k (keys q)" unfolding q' by simp
    moreover from nk have "{e \<in> set (queue q). fst e \<noteq> k} = set (queue q)" by force
    then have "set (queue q') = insert (k, p) {e \<in> set (queue q). fst e \<noteq> k}"
      unfolding q' by simp
    ultimately show ?thesis by simp
  qed
  then show "pq_inv q'" "keys q' = insert k (keys q)"
    "set (queue q') = insert (k, p) {e \<in> set (queue q). fst e \<noteq> k}"
    by simp_all
qed

lemma pq_set_overwrite:
  assumes "pq_inv q" "pq_has q k" "pq_set k (Num p) q = Inr q'"
  shows "length (queue q') = length (queue q)" and "pq_get q' k = Some (k, p)"
proof -
  show "length (queue q') = length (queue q)"
    using assms by (auto simp: pq_has_def pq_sort_def)
  have q'_inv: "pq_inv q'" and mem: "(k, p) \<in> set (queue q')"
    using pq_set_inv [OF assms(1,3)] by auto
  then obtain e where e: "pq_get q' k = Some e"
    unfolding pq_get_def by (cases "find (\<lambda>element. fst element = k) (queue q')")
      (auto simp: find_None_iff)
  then have "e \<in> set (queue q')" "fst e = k"
    unfolding pq_get_def by (auto simp: find_Some_iff)
  with mem q'_inv have "e = (k, p)"
    unfolding pq_inv_def by (metis eq_key_imp_eq_value prod.collapse)
  with e show "pq_get q' k = Some (k, p)" by simp
qed

lemma pq_next_inv:
  assumes "pq_inv q" "pq_next q = Inr (element, q')"
  shows "pq_inv q'" and "queue q = element # queue q'" and "keys q' = keys q - {fst element}"
    and "fst element \<notin> fst ` set (queue q')"
proof -
  from assms(2) obtain rest where q: "queue q = element # rest"
    and q': "q' = q\<lparr>keys := keys q - {fst element}, queue := rest\<rparr>"
    by (auto simp: pq_next_def split: list.splits)
  from assms(1) q have "keys q = insert (fst element) (fst ` set rest)"
    "fst element \<notin> fst ` set rest" "distinct (map fst rest)"
    by (simp_all add: pq_inv_def)
  then show "pq_inv q'" "queue q = element # queue q'" "keys q' = keys q - {fst element}"
    "fst element \<notin> fst ` set (queue q')"
    using q q' by (simp_all add: pq_inv_def)
qed

lemma pq_get_has:
  assumes "pq_inv q" "pq_has q k"
  shows "\<exists>p. pq_get q k = Some (k, p) \<and> (k, p) \<in> set (queue q)"
proof -
  from assms have "k \<in> fst ` set (queue q)" by (simp add: pq_inv_def pq_has_def)
  then obtain e where "pq_get q k = Some e"
    unfolding pq_get_def by (cases "find (\<lambda>element. fst element = k) (queue q)")
      (auto simp: find_None_iff)
  moreover from this have "e \<in> set (queue q)" "fst e = k"
    unfolding pq_get_def by (auto simp: find_Some_iff)
  ultimately show ?thesis by (cases e) auto
qed

lemma pq_calls_inv: "pq_inv q \<Longrightarrow> pq_calls cs q = Inr q' \<Longrightarrow> pq_inv q'"
proof (induction cs arbitrary: q)
  case Nil
  then show ?case by simp
next
  case (Cons c cs)
  show ?case
  proof (cases c)
    case (Set k p)
    with Cons.prems(2) obtain q1 where q1: "pq_set k p q = Inr q1" "pq_calls cs q1 = Inr q'"
      by (auto split: sum.splits)
    then obtain n where "p = Num n" by (cases p) auto
    with q1 Cons.prems(1) have "pq_inv q1" by (auto dest: pq_set_inv(1))
    with q1 Cons.IH show ?thesis by blast
  next
    case Next
    with Cons.prems(2) obtain element q1 where
      q1: "pq_next q = Inr (element, q1)" "pq_calls cs q1 = Inr q'"
      by (auto split: sum.splits)
    with Cons.prems(1) have "pq_inv q1" by (auto dest: pq_next_inv(1))
    with q1 Cons.IH show ?thesis by blast
  qed
qed

text \<open>
  C5. Whatever sequence of \<^verbatim>\<open>set\<close> and \<^verbatim>\<open>next\<close> calls has been made on a new queue, the
  queue holds at most one entry for each key; and a \<^verbatim>\<open>set\<close> with a key that is present
  adds no entry: the length stays the same, the keys stay distinct, and the entry of that
  key now carries the new priority.
\<close>

theorem frontier_one_entry_per_key:
  assumes "pq_calls cs pq_new = Inr q"
  shows "distinct (map fst (queue q)) \<and>
         (\<forall>k p q'. pq_has q k \<and> pq_set k (Num p) q = Inr q' \<longrightarrow>
            distinct (map fst (queue q')) \<and> length (queue q') = length (queue q) \<and>
            pq_get q' k = Some (k, p))"
proof -
  have q_inv: "pq_inv q" using pq_calls_inv [OF pq_inv_new assms] .
  then show ?thesis
    using pq_set_overwrite [OF q_inv] pq_set_inv(1) [OF q_inv]
    by (auto simp: pq_inv_def)
qed

theorem frontier_one_entry_per_key_witness:
  "pq_calls [Set ''A'' (Num (Fin 0)), Next, Set ''B'' (Num (Fin 4)), Set ''C'' (Num (Fin 1))] pq_new =
     Inr \<lparr>keys = {''B'', ''C''}, queue = [(''C'', Fin 1), (''B'', Fin 4)]\<rparr> \<and>
   pq_has \<lparr>keys = {''B'', ''C''}, queue = [(''C'', Fin 1), (''B'', Fin 4)]\<rparr> ''B'' \<and>
   pq_set ''B'' (Num (Fin 0)) \<lparr>keys = {''B'', ''C''}, queue = [(''C'', Fin 1), (''B'', Fin 4)]\<rparr> =
     Inr \<lparr>keys = {''B'', ''C''}, queue = [(''B'', Fin 0), (''C'', Fin 1)]\<rparr> \<and>
   distinct (map fst (queue \<lparr>keys = {''B'', ''C''}, queue = [(''B'', Fin 0), (''C'', Fin 1)]\<rparr>)) \<and>
   pq_get \<lparr>keys = {''B'', ''C''}, queue = [(''B'', Fin 0), (''C'', Fin 1)]\<rparr> ''B'' = Some (''B'', Fin 0)"
proof -
  have run: "pq_calls [Set ''A'' (Num (Fin 0)), Next, Set ''B'' (Num (Fin 4)), Set ''C'' (Num (Fin 1))] pq_new =
     Inr \<lparr>keys = {''B'', ''C''}, queue = [(''C'', Fin 1), (''B'', Fin 4)]\<rparr>"
    by (simp add: pq_new_def pq_sort_def pq_next_def insert_commute)
  have has: "pq_has \<lparr>keys = {''B'', ''C''}, queue = [(''C'', Fin 1), (''B'', Fin 4)]\<rparr> ''B''"
    by (simp add: pq_has_def)
  have upd: "pq_set ''B'' (Num (Fin 0)) \<lparr>keys = {''B'', ''C''}, queue = [(''C'', Fin 1), (''B'', Fin 4)]\<rparr> =
     Inr \<lparr>keys = {''B'', ''C''}, queue = [(''B'', Fin 0), (''C'', Fin 1)]\<rparr>"
    by (simp add: pq_sort_def)
  from frontier_one_entry_per_key [OF run] has upd run show ?thesis
    by blast
qed

section \<open>Routes and chains of back-pointers\<close>

lemma is_edge_target: "is_edge g u v c \<Longrightarrow> v \<in> targets g"
  unfolding is_edge_def adjacent_def neighbors_of_def targets_def
  by (force split: option.splits val.splits if_splits dest: map_of_SomeD)

lemma finite_targets: "finite (targets g)"
  unfolding targets_def by (auto split: val.splits)

lemma route_step:
  "route fadd g acc (u # v # vs) c \<longleftrightarrow>
     (\<exists>d. is_edge g u v d \<and> route fadd g (fadd acc d) (v # vs) c)"
proof
  assume "route fadd g acc (u # v # vs) c"
  then obtain e where e: "e \<in> set (adjacent g u)" "fst e = v"
    and r: "case snd e of Cost d \<Rightarrow> route fadd g (fadd acc d) (v # vs) c | Nested m \<Rightarrow> False"
    by auto
  from r obtain d where d: "snd e = Cost d" "route fadd g (fadd acc d) (v # vs) c"
    by (cases "snd e") auto
  from e(2) d(1) have "e = (v, Cost d)" by (cases e) simp
  with e d show "\<exists>d. is_edge g u v d \<and> route fadd g (fadd acc d) (v # vs) c"
    unfolding is_edge_def by auto
next
  assume "\<exists>d. is_edge g u v d \<and> route fadd g (fadd acc d) (v # vs) c"
  then obtain d where "(v, Cost d) \<in> set (adjacent g u)" "route fadd g (fadd acc d) (v # vs) c"
    unfolding is_edge_def by auto
  then show "route fadd g acc (u # v # vs) c"
    by (auto intro!: bexI [of _ "(v, Cost d)"])
qed

lemma route_append:
  "route fadd g acc vs d \<Longrightarrow> last vs = p \<Longrightarrow> is_edge g p n c \<Longrightarrow>
   route fadd g acc (vs @ [n]) (fadd d c)"
proof (induction vs arbitrary: acc)
  case Nil
  then show ?case by simp
next
  case (Cons u vs)
  show ?case
  proof (cases vs)
    case Nil
    with Cons.prems have "is_edge g u n c \<and> route fadd g (fadd acc c) [n] (fadd d c)"
      by simp
    then have "\<exists>x. is_edge g u n x \<and> route fadd g (fadd acc x) [n] (fadd d c)" ..
    with Nil show ?thesis
      by (simp add: route_step del: route.simps(3))
  next
    case (Cons v ws)
    with Cons.prems(1) obtain d' where d': "is_edge g u v d'" "route fadd g (fadd acc d') vs d"
      by (auto simp: route_step simp del: route.simps(3))
    from Cons.IH [OF d'(2)] Cons.prems Cons
    have "route fadd g (fadd acc d') (v # ws @ [n]) (fadd d c)"
      by simp
    with d'(1) have "\<exists>x. is_edge g u v x \<and> route fadd g (fadd acc x) (v # ws @ [n]) (fadd d c)"
      by blast
    then show ?thesis using Cons
      by (simp add: route_step del: route.simps(3))
  qed
qed

lemma route_trancl: "route fadd g acc (u # vs @ [v]) c \<Longrightarrow> (u, v) \<in> (edges g)\<^sup>+"
proof (induction vs arbitrary: u acc)
  case Nil
  then have "(u, v) \<in> edges g"
    by (auto simp: edges_def route_step simp del: route.simps(3))
  then show ?case by blast
next
  case (Cons w vs)
  from Cons.prems obtain d where "is_edge g u w d" "route fadd g (fadd acc d) (w # vs @ [v]) c"
    by (auto simp: route_step simp del: route.simps(3))
  with Cons.IH have "(u, w) \<in> edges g" "(w, v) \<in> (edges g)\<^sup>+"
    by (auto simp: edges_def)
  then show ?case by (rule trancl_into_trancl2)
qed

lemma chain_mono:
  assumes "back_chain fadd g start prev E n ns d" "E \<subseteq> E'" "\<forall>x \<in> E. prev' x = prev x"
  shows "back_chain fadd g start prev' E' n ns d"
  using assms
proof (induction rule: back_chain.induct)
  case chain_start
  then show ?case by (auto intro: back_chain.chain_start)
next
  case (chain_step n p ns d c)
  then show ?case by (auto intro!: back_chain.chain_step)
qed

lemma chain_facts:
  assumes "back_chain fadd g start prev E n ns d"
  shows "start \<in> E" "prev start = None" "n \<in> E" "set ns \<subseteq> E" "start \<notin> set ns"
    "last (start # rev ns) = n" "route fadd g (Fin 0) (start # rev ns) d"
  using assms
proof (induction rule: back_chain.induct)
  case chain_start
  {
    case 1 then show ?case using chain_start by simp
  next
    case 2 then show ?case using chain_start by simp
  next
    case 3 then show ?case using chain_start by simp
  next
    case 4 then show ?case by simp
  next
    case 5 then show ?case by simp
  next
    case 6 then show ?case by simp
  next
    case 7 then show ?case by simp
  }
next
  case (chain_step n p ns d c)
  {
    case 1 then show ?case using chain_step by simp
  next
    case 2 then show ?case using chain_step by simp
  next
    case 3 then show ?case using chain_step by simp
  next
    case 4 then show ?case using chain_step by simp
  next
    case 5 then show ?case using chain_step by auto
  next
    case 6 then show ?case by simp
  next
    case 7
    from route_append [OF chain_step.IH(7) chain_step.IH(6) chain_step.hyps(4)]
    show ?case by simp
  }
qed

lemma chain_walk:
  "back_chain fadd g start prev E n ns d \<Longrightarrow> walk_back prev n acc = Some (acc @ ns)"
proof (induction arbitrary: acc rule: back_chain.induct)
  case chain_start
  then show ?case by (subst walk_back.simps) simp
next
  case (chain_step n p ns d c)
  then show ?case by (subst walk_back.simps) simp
qed

section \<open>The invariant is kept by the loop\<close>

lemma neighbors_adjacent: "neighbors_of g x = Inr m \<Longrightarrow> adjacent g x = m"
  by (simp add: adjacent_def)

lemma flat_neighbors: "flat g \<Longrightarrow> \<exists>m. neighbors_of g x = Inr m"
  unfolding flat_def neighbors_of_def list_all_iff
  by (auto split: option.splits val.splits dest!: map_of_SomeD)

lemma flat_adjacent: "flat g \<Longrightarrow> nb \<in> set (adjacent g x) \<Longrightarrow> \<exists>c. snd nb = Cost c"
  unfolding flat_def neighbors_of_def adjacent_def list_all_iff
  by (cases "snd nb") (auto split: option.splits val.splits if_splits dest!: map_of_SomeD)

lemma relax_update:
  assumes R: "relaxing fadd g start st x q" and nE: "n \<notin> explored st"
    and edge: "is_edge g x n c" and upd: "pq_set n (Num (fadd q c)) (frontier st) = Inr f"
  shows "relaxing fadd g start (st\<lparr>previous := (previous st)(n \<mapsto> x), frontier := f\<rparr>) x q"
proof -
  let ?prev = "previous st" and ?prev' = "(previous st)(n \<mapsto> x)" and ?E = "explored st"
  from R have I: "loop_inv fadd g start st" by (simp add: relaxing_def)
  from R obtain nsx where cx: "back_chain fadd g start ?prev ?E x nsx q" by (auto simp: relaxing_def)
  have same: "\<forall>y \<in> ?E. ?prev' y = ?prev y" using nE by auto
  have mono: "back_chain fadd g start ?prev' ?E m ns d" if "back_chain fadd g start ?prev ?E m ns d" for m ns d
    using chain_mono [OF that subset_refl same] .
  from I have pq: "pq_inv (frontier st)" and sE: "start \<in> ?E" and ps: "?prev start = None"
    and pv: "path_var st = []"
    by (simp_all add: loop_inv_def)
  note S = pq_set_inv [OF pq upd]
  from sE nE have "n \<noteq> start" by auto
  with ps have ps': "?prev' start = None" by simp
  have entries: "fst e \<notin> ?E \<and> fst e \<in> targets g \<and>
        (\<exists>p ns d c. ?prev' (fst e) = Some p \<and> back_chain fadd g start ?prev' ?E p ns d \<and>
           is_edge g p (fst e) c \<and> snd e = fadd d c)" if e: "e \<in> set (queue f)" for e
  proof (cases "e = (n, fadd q c)")
    case True
    with nE edge mono [OF cx] show ?thesis
      by (auto intro: is_edge_target)
  next
    case False
    with e S(3) have old: "e \<in> set (queue (frontier st))" and ne: "fst e \<noteq> n" by auto
    from I old obtain p ns d c' where o: "fst e \<notin> ?E" "fst e \<in> targets g"
      "?prev (fst e) = Some p" "back_chain fadd g start ?prev ?E p ns d" "is_edge g p (fst e) c'"
      "snd e = fadd d c'"
      unfolding loop_inv_def by blast
    from ne o(3) have "?prev' (fst e) = Some p" by simp
    with o(1,2,5,6) mono [OF o(4)] show ?thesis by blast
  qed
  have expl: "\<exists>ns d. back_chain fadd g start ?prev' ?E m ns d" if "m \<in> ?E" for m
    using I that mono unfolding loop_inv_def by blast
  show ?thesis
    unfolding relaxing_def loop_inv_def
    using S(1) pv ps' sE entries expl mono [OF cx] by auto
qed

lemma relax_inv:
  assumes R: "relaxing fadd g start st x q" and nb: "nb \<in> set (adjacent g x)"
    and rel: "relax fadd (x, q) nb st = Inr st'"
  shows "relaxing fadd g start st' x q \<and> explored st' = explored st"
proof (cases "st' = st")
  case True
  with R show ?thesis by simp
next
  case False
  with rel obtain f where nE: "fst nb \<notin> explored st"
    and upd: "pq_set (fst nb) (js_add fadd q (snd nb)) (frontier st) = Inr f"
    and st': "st' = st\<lparr>previous := (previous st)(fst nb \<mapsto> x), frontier := f\<rparr>"
    by (auto simp: relax_def Let_def split: if_splits sum.splits option.splits)
  from upd obtain c where c: "snd nb = Cost c" by (cases "snd nb") auto
  then have "(fst nb, Cost c) = nb" by (cases nb) simp
  with nb have "is_edge g x (fst nb) c"
    unfolding is_edge_def by simp
  from relax_update [OF R nE this] upd c show ?thesis
    unfolding st' by simp
qed

lemma relax_flat:
  assumes R: "relaxing fadd g start st x q" and c: "snd nb = Cost c"
  shows "\<exists>st'. relax fadd (x, q) nb st = Inr st'"
proof -
  from R have pq: "pq_inv (frontier st)" by (simp add: relaxing_def loop_inv_def)
  show ?thesis
  proof (cases "pq_has (frontier st) (fst nb)")
    case True
    from pq_get_has [OF pq True] obtain p where "pq_get (frontier st) (fst nb) = Some (fst nb, p)"
      by blast
    with True c show ?thesis by (simp add: relax_def Let_def)
  next
    case False
    with c show ?thesis by (simp add: relax_def Let_def)
  qed
qed

lemma forEach_inv:
  "relaxing fadd g start st x q \<Longrightarrow> set nbs \<subseteq> set (adjacent g x) \<Longrightarrow>
   forEach fadd (x, q) nbs st = Inr st' \<Longrightarrow>
   relaxing fadd g start st' x q \<and> explored st' = explored st"
proof (induction nbs arbitrary: st)
  case Nil
  then show ?case by simp
next
  case (Cons nb nbs)
  from Cons.prems(3) obtain st1 where st1: "relax fadd (x, q) nb st = Inr st1"
    "forEach fadd (x, q) nbs st1 = Inr st'"
    by (auto split: sum.splits)
  from relax_inv [OF Cons.prems(1) _ st1(1)] Cons.prems(2)
  have "relaxing fadd g start st1 x q" "explored st1 = explored st" by auto
  with Cons.IH [OF _ _ st1(2)] Cons.prems(2) show ?case by auto
qed

lemma forEach_flat:
  "flat g \<Longrightarrow> relaxing fadd g start st x q \<Longrightarrow> set nbs \<subseteq> set (adjacent g x) \<Longrightarrow>
   \<exists>st'. forEach fadd (x, q) nbs st = Inr st'"
proof (induction nbs arbitrary: st)
  case Nil
  then show ?case by simp
next
  case (Cons nb nbs)
  from Cons.prems have nb: "nb \<in> set (adjacent g x)" by simp
  from flat_adjacent [OF Cons.prems(1) nb] obtain c where "snd nb = Cost c" ..
  from relax_flat [OF Cons.prems(2) this] obtain st1 where st1: "relax fadd (x, q) nb st = Inr st1" ..
  from relax_inv [OF Cons.prems(2) nb st1] have "relaxing fadd g start st1 x q" by simp
  from Cons.IH [OF Cons.prems(1) this] Cons.prems(3) st1 show ?case by auto
qed

lemma extract_tentative:
  assumes I: "loop_inv fadd g start st" and nx: "pq_next (frontier st) = Inr ((x, q), f)"
  shows "x \<notin> explored st" "x \<in> targets g"
    "\<exists>p ns d c. previous st x = Some p \<and> back_chain fadd g start (previous st) (explored st) p ns d \<and>
       is_edge g p x c \<and> q = fadd d c"
proof -
  from I have pq: "pq_inv (frontier st)" by (simp add: loop_inv_def)
  from pq_next_inv(2) [OF pq nx] have "(x, q) \<in> set (queue (frontier st))" by simp
  with I have "fst (x, q) \<notin> explored st \<and> fst (x, q) \<in> targets g \<and>
     (\<exists>p ns d c. previous st (fst (x, q)) = Some p \<and>
        back_chain fadd g start (previous st) (explored st) p ns d \<and> is_edge g p (fst (x, q)) c \<and>
        snd (x, q) = fadd d c)"
    unfolding loop_inv_def by blast
  then show "x \<notin> explored st" "x \<in> targets g"
    "\<exists>p ns d c. previous st x = Some p \<and> back_chain fadd g start (previous st) (explored st) p ns d \<and>
       is_edge g p x c \<and> q = fadd d c"
    by simp_all
qed

lemma extract_relaxing:
  assumes I: "loop_inv fadd g start st" and nx: "pq_next (frontier st) = Inr ((x, q), f)"
  shows "relaxing fadd g start (st\<lparr>frontier := f, explored := insert x (explored st)\<rparr>) x q"
proof -
  let ?prev = "previous st" and ?E = "explored st" and ?E' = "insert x (explored st)"
  from I have pq: "pq_inv (frontier st)" and sE: "start \<in> ?E" and ps: "?prev start = None"
    and pv: "path_var st = []"
    by (simp_all add: loop_inv_def)
  note N = pq_next_inv [OF pq nx]
  have mono: "back_chain fadd g start ?prev ?E' m ns d" if "back_chain fadd g start ?prev ?E m ns d" for m ns d
    using chain_mono [OF that, of ?E' ?prev] by auto
  from extract_tentative(3) [OF I nx] obtain p ns d c where
    t: "?prev x = Some p" "back_chain fadd g start ?prev ?E p ns d" "is_edge g p x c" "q = fadd d c"
    by blast
  have cx: "back_chain fadd g start ?prev ?E' x (x # ns) q"
    unfolding t(4) using t(1) mono [OF t(2)] t(3) by (intro chain_step) auto
  have entries: "fst e \<notin> ?E' \<and> fst e \<in> targets g \<and>
        (\<exists>p ns d c. ?prev (fst e) = Some p \<and> back_chain fadd g start ?prev ?E' p ns d \<and>
           is_edge g p (fst e) c \<and> snd e = fadd d c)" if e: "e \<in> set (queue f)" for e
  proof -
    from e N(2) have old: "e \<in> set (queue (frontier st))" by simp
    from e N(4) have ne: "fst e \<noteq> x" by auto
    from I old obtain p ns d c' where o: "fst e \<notin> ?E" "fst e \<in> targets g"
      "?prev (fst e) = Some p" "back_chain fadd g start ?prev ?E p ns d" "is_edge g p (fst e) c'"
      "snd e = fadd d c'"
      unfolding loop_inv_def by blast
    from ne o(1) have "fst e \<notin> ?E'" by simp
    with o(2,3,5,6) mono [OF o(4)] show ?thesis by blast
  qed
  have expl: "\<exists>ns d. back_chain fadd g start ?prev ?E' m ns d" if "m \<in> ?E'" for m
  proof (cases "m = x")
    case True
    with cx show ?thesis by blast
  next
    case False
    with that I mono show ?thesis unfolding loop_inv_def by blast
  qed
  show ?thesis
    unfolding relaxing_def loop_inv_def
    using N(1) pv ps sE entries expl cx by auto
qed

lemma extract_goal:
  assumes I: "loop_inv fadd g start st" and nx: "pq_next (frontier st) = Inr ((goal, q), f)"
  shows "\<exists>ns. walk_back (previous st) goal [] = Some (goal # ns) \<and> start \<notin> set ns \<and>
           goal \<notin> set ns \<and> start \<noteq> goal \<and> route fadd g (Fin 0) (start # rev ns @ [goal]) q"
proof -
  from extract_tentative [OF I nx] obtain p ns d c where nE: "goal \<notin> explored st"
    and t: "previous st goal = Some p" "back_chain fadd g start (previous st) (explored st) p ns d"
      "is_edge g p goal c" "q = fadd d c"
    by blast
  note F = chain_facts [OF t(2)]
  have "walk_back (previous st) goal [] = Some (goal # ns)"
    using t(1) chain_walk [OF t(2), of "[goal]"] by (subst walk_back.simps) simp
  moreover from F(4) nE have "goal \<notin> set ns" by auto
  moreover from F(1) nE have "start \<noteq> goal" by auto
  moreover from route_append [OF F(7) F(6) t(3)] have "route fadd g (Fin 0) (start # rev ns @ [goal]) q"
    using t(4) by simp
  ultimately show ?thesis using F(5) by blast
qed

lemma search_inv:
  "loop_inv fadd g start st \<Longrightarrow>
   \<exists>out. search_loop fadd g goal st = Some out \<and>
     (case out of Inl e \<Rightarrow> \<not> flat g | Inr st' \<Rightarrow> final fadd g start goal st')"
proof (induction "card (targets g - explored st)" arbitrary: st rule: less_induct)
  case less
  note I = less.prems
  show ?case
  proof (cases "pq_isEmpty (frontier st)")
    case True
    with I show ?thesis
      by (subst search_loop.simps) (simp add: final_def loop_inv_def)
  next
    case False
    then obtain x q f where nx: "pq_next (frontier st) = Inr ((x, q), f)"
      by (cases "queue (frontier st)") (auto simp: pq_isEmpty_def pq_next_def)
    show ?thesis
    proof (cases "x = goal")
      case True
      from extract_goal [OF I nx [unfolded True]] obtain ns where
        ns: "walk_back (previous st) goal [] = Some (goal # ns)" "start \<notin> set ns"
          "goal \<notin> set ns" "start \<noteq> goal" "route fadd g (Fin 0) (start # rev ns @ [goal]) q"
        by blast
      from I have "path_var st = []" by (simp add: loop_inv_def)
      with False nx True ns show ?thesis
        by (subst search_loop.simps) (simp add: loop_body_def final_def)
    next
      case ng: False
      let ?st1 = "st\<lparr>frontier := f, explored := insert x (explored st)\<rparr>"
      note R = extract_relaxing [OF I nx]
      show ?thesis
      proof (cases "neighbors_of g x")
        case (Inl e)
        with flat_neighbors [of g x] have "\<not> flat g" by auto
        with False nx ng Inl show ?thesis
          by (subst search_loop.simps) (simp add: loop_body_def)
      next
        case (Inr nbs)
        then have adj: "set nbs \<subseteq> set (adjacent g x)" by (simp add: neighbors_adjacent)
        show ?thesis
        proof (cases "forEach fadd (x, q) nbs ?st1")
          case (Inl e)
          with forEach_flat [OF _ R adj] have "\<not> flat g" by auto
          with False nx ng Inr Inl show ?thesis
            by (subst search_loop.simps) (simp add: loop_body_def)
        next
          case fe: (Inr st')
          from forEach_inv [OF R adj fe] have I': "loop_inv fadd g start st'"
            and E': "explored st' = insert x (explored st)"
            by (simp_all add: relaxing_def)
          from extract_tentative(1,2) [OF I nx] have "x \<in> targets g - explored st" by simp
          then have "card (targets g - explored st') < card (targets g - explored st)"
            unfolding E' using finite_targets [of g]
            by (metis Diff_insert card_Diff1_less finite_Diff)
          from less.hyps [OF this I'] obtain out where
            "search_loop fadd g goal st' = Some out"
            "case out of Inl e \<Rightarrow> \<not> flat g | Inr st' \<Rightarrow> final fadd g start goal st'"
            by blast
          with False nx ng Inr fe show ?thesis
            by (subst search_loop.simps) (simp add: loop_body_def)
        qed
      qed
    qed
  qed
qed

section \<open>What a query returns\<close>

lemma pq_set_start: "pq_set start (Num (Fin 0)) pq_new = Inr \<lparr>keys = {start}, queue = [(start, Fin 0)]\<rparr>"
  by (simp add: pq_new_def pq_sort_def)

lemma path_unfold:
  "path fadd g start goal opts =
    (let options = (if truthy opts then read_options opts else read_options Undefined) in
     if length g = 0 then Some (Inr (if cost options then WithCost None (Fin 0) else Null))
     else
       (case search_loop fadd g goal (seeded start) of
          None \<Rightarrow> None
        | Some (Inl e) \<Rightarrow> Some (Inl e)
        | Some (Inr st) \<Rightarrow>
            if length (path_var st) = 0 then
              Some (Inr (if cost options then WithCost None (Fin 0) else Null))
            else
              (let p = (if trim options then tl (path_var st) else path_var st @ [start]);
                   p = (if \<not> reverse options then rev p else p)
               in Some (Inr (if cost options then WithCost (Some p) (totalCost st)
                             else Path p)))))"
  unfolding path_def pq_set_start seeded_def sum.case ..

lemma inv_first:
  "relaxing fadd g start
     (seeded start\<lparr>frontier := \<lparr>keys = {}, queue = []\<rparr>,
                    explored := insert start (explored (seeded start))\<rparr>) start (Fin 0)"
  unfolding relaxing_def loop_inv_def
  by (auto simp: seeded_def pq_inv_def intro: chain_start)

lemma search_seeded:
  "\<exists>out. search_loop fadd g goal (seeded start) = Some out \<and>
     (case out of Inl e \<Rightarrow> \<not> flat g | Inr st \<Rightarrow> final fadd g start goal st)"
proof (cases "start = goal")
  case True
  have "search_loop fadd g goal (seeded start) =
      Some (Inr (seeded start\<lparr>frontier := \<lparr>keys = {}, queue = []\<rparr>, totalCost := Fin 0, path_var := []\<rparr>))"
    unfolding True
    apply (subst search_loop.simps)
    apply (simp add: seeded_def pq_isEmpty_def loop_body_def pq_next_def)
    apply (subst walk_back.simps)
    apply simp
    done
  then show ?thesis by (simp add: final_def)
next
  case False
  let ?st1 = "seeded start\<lparr>frontier := \<lparr>keys = {}, queue = []\<rparr>,
                            explored := insert start (explored (seeded start))\<rparr>"
  note R = inv_first [of fadd g start]
  have ne: "\<not> pq_isEmpty (frontier (seeded start))"
    and nx: "pq_next (frontier (seeded start)) = Inr ((start, Fin 0), \<lparr>keys = {}, queue = []\<rparr>)"
    by (simp_all add: seeded_def pq_isEmpty_def pq_next_def)
  show ?thesis
  proof (cases "neighbors_of g start")
    case (Inl e)
    with flat_neighbors [of g start] have "\<not> flat g" by auto
    with ne nx False Inl show ?thesis
      by (subst search_loop.simps) (simp add: loop_body_def)
  next
    case (Inr nbs)
    then have adj: "set nbs \<subseteq> set (adjacent g start)" by (simp add: neighbors_adjacent)
    show ?thesis
    proof (cases "forEach fadd (start, Fin 0) nbs ?st1")
      case (Inl e)
      with forEach_flat [OF _ R adj] have "\<not> flat g" by auto
      with ne nx False Inr Inl show ?thesis
        by (subst search_loop.simps) (simp add: loop_body_def)
    next
      case fe: (Inr st')
      from forEach_inv [OF R adj fe] have "loop_inv fadd g start st'" by (simp add: relaxing_def)
      from search_inv [OF this, of goal] obtain out where
        "search_loop fadd g goal st' = Some out"
        "case out of Inl e \<Rightarrow> \<not> flat g | Inr st' \<Rightarrow> final fadd g start goal st'"
        by blast
      with ne nx False Inr fe show ?thesis
        by (subst search_loop.simps) (simp add: loop_body_def)
    qed
  qed
qed

lemma path_found:
  assumes "path fadd g start goal (ObjArg \<lparr>trim = False, reverse = r, cost = k\<rparr>) = Some (Inr res)"
    and "sequence_of res = Some p"
  shows "\<exists>st ns. g \<noteq> [] \<and> search_loop fadd g goal (seeded start) = Some (Inr st) \<and>
    path_var st = goal # ns \<and> start \<notin> set ns \<and> goal \<notin> set ns \<and> start \<noteq> goal \<and>
    route fadd g (Fin 0) (start # rev ns @ [goal]) (totalCost st)"
proof -
  from assms have g: "g \<noteq> []"
    by (auto simp: path_unfold Let_def split: if_splits)
  with assms obtain st where st: "search_loop fadd g goal (seeded start) = Some (Inr st)"
    and ne: "path_var st \<noteq> []"
    by (auto simp: path_unfold Let_def split: if_splits option.splits sum.splits)
  from search_seeded [of fadd g goal start] st have "final fadd g start goal st" by simp
  with ne obtain ns where "path_var st = goal # ns" "start \<notin> set ns" "goal \<notin> set ns"
    "start \<noteq> goal" "route fadd g (Fin 0) (start # rev ns @ [goal]) (totalCost st)"
    unfolding final_def by blast
  with g st show ?thesis by blast
qed

text \<open>
  C1 as stated fails. On the graph built from \<^verbatim>\<open>{A: {B: 9007199254740992}, B: {C: 1}}\<close>,
  where the cost of the first edge is \<open>2 ^ 53\<close>, \<^verbatim>\<open>path('A', 'C')\<close> with the cost requested
  returns the sequence A, B, C with the cost \<open>2 ^ 53\<close>: the sum \<open>2 ^ 53 + 1\<close> of the costs of
  the two edges is not a double and is rounded. So the returned cost is not the sum of
  the costs of the edges.
\<close>

theorem path_is_route_counterexample:
  "Graph (Some [(''A'', Obj [(''B'', Leaf (Num (Fin 9007199254740992)))]),
                (''B'', Obj [(''C'', Leaf (Num (Fin 1)))])]) =
     Inr \<lparr>graph = [(''A'', Nested [(''B'', Cost (Fin 9007199254740992))]),
                   (''B'', Nested [(''C'', Cost (Fin 1))])], console = []\<rparr> \<and>
   path double_add
     [(''A'', Nested [(''B'', Cost (Fin 9007199254740992))]),
      (''B'', Nested [(''C'', Cost (Fin 1))])]
     ''A'' ''C'' (ObjArg \<lparr>trim = False, reverse = False, cost = True\<rparr>) =
       Some (Inr (WithCost (Some [''A'', ''B'', ''C'']) (Fin 9007199254740992))) \<and>
   \<not> route exact_add
     [(''A'', Nested [(''B'', Cost (Fin 9007199254740992))]),
      (''B'', Nested [(''C'', Cost (Fin 1))])]
     (Fin 0) [''A'', ''B'', ''C''] (Fin 9007199254740992)"
proof -
  have "Graph (Some [(''A'', Obj [(''B'', Leaf (Num (Fin 9007199254740992)))]),
                (''B'', Obj [(''C'', Leaf (Num (Fin 1)))])]) =
     Inr \<lparr>graph = [(''A'', Nested [(''B'', Cost (Fin 9007199254740992))]),
                   (''B'', Nested [(''C'', Cost (Fin 1))])], console = []\<rparr>"
    by (simp add: Graph_def)
  moreover have "path double_add
     [(''A'', Nested [(''B'', Cost (Fin 9007199254740992))]),
      (''B'', Nested [(''C'', Cost (Fin 1))])]
     ''A'' ''C'' (ObjArg \<lparr>trim = False, reverse = False, cost = True\<rparr>) =
       Some (Inr (WithCost (Some [''A'', ''B'', ''C'']) (Fin 9007199254740992)))"
    by (simp add: path_def Let_def pq_new_def pq_sort_def search_loop.simps loop_body_def
        pq_isEmpty_def pq_next_def neighbors_of_def relax_def pq_has_def pq_get_def
        walk_back.simps double_round_int double_round_above_2_53)
  moreover have "\<not> route exact_add
     [(''A'', Nested [(''B'', Cost (Fin 9007199254740992))]),
      (''B'', Nested [(''C'', Cost (Fin 1))])]
     (Fin 0) [''A'', ''B'', ''C''] (Fin 9007199254740992)"
    by (simp add: adjacent_def neighbors_of_def)
  ultimately show ?thesis by blast
qed

text \<open>
  C1, amended. When \<^verbatim>\<open>path(start, goal)\<close> returns a sequence, the same call with the cost
  requested returns that sequence with a cost; the sequence leads from \<open>start\<close> to \<open>goal\<close>,
  each node is joined to the next by an edge of the graph, and adding the costs of these
  edges to 0 one after the other, from \<open>start\<close> to \<open>goal\<close> and with the addition of the code,
  gives exactly the returned cost. This holds whatever the costs stored in the graph are.
\<close>

theorem path_is_route:
  assumes "path fadd g start goal Undefined = Some (Inr (Path p))"
  shows "\<exists>c. path fadd g start goal (ObjArg \<lparr>trim = False, reverse = False, cost = True\<rparr>) =
               Some (Inr (WithCost (Some p) c)) \<and>
             route fadd g (Fin 0) p c \<and> hd p = start \<and> last p = goal"
proof -
  have "path fadd g start goal (ObjArg \<lparr>trim = False, reverse = False, cost = False\<rparr>) =
      path fadd g start goal Undefined"
    by (rule path_options_cong) simp
  with assms have found:
    "path fadd g start goal (ObjArg \<lparr>trim = False, reverse = False, cost = False\<rparr>) =
       Some (Inr (Path p))"
    by simp
  have "sequence_of (Path p) = Some p" by simp
  from path_found [OF found this] obtain st ns where g: "g \<noteq> []"
    and st: "search_loop fadd g goal (seeded start) = Some (Inr st)"
    and pv: "path_var st = goal # ns"
    and rt: "route fadd g (Fin 0) (start # rev ns @ [goal]) (totalCost st)"
    by blast
  from found g st pv have p: "p = start # rev ns @ [goal]"
    by (simp add: path_unfold)
  from g st pv have "path fadd g start goal (ObjArg \<lparr>trim = False, reverse = False, cost = True\<rparr>) =
               Some (Inr (WithCost (Some p) (totalCost st)))"
    by (simp add: path_unfold p)
  moreover have "hd p = start" "last p = goal" by (simp_all add: p)
  ultimately show ?thesis using rt unfolding p by blast
qed

theorem path_is_route_witness:
  "path exact_add example_graph ''A'' ''C'' Undefined = Some (Inr (Path [''A'', ''B'', ''C''])) \<and>
   (\<exists>c. path exact_add example_graph ''A'' ''C'' (ObjArg \<lparr>trim = False, reverse = False, cost = True\<rparr>) =
          Some (Inr (WithCost (Some [''A'', ''B'', ''C'']) c)) \<and>
        route exact_add example_graph (Fin 0) [''A'', ''B'', ''C''] c)"
proof -
  have found: "path exact_add example_graph ''A'' ''C'' Undefined = Some (Inr (Path [''A'', ''B'', ''C'']))"
    by code_simp
  from path_is_route [OF found] found show ?thesis by blast
qed

text \<open>
  C3. When \<^verbatim>\<open>path\<close> without \<open>trim\<close> returns a sequence, the same call with \<open>trim\<close> returns
  that sequence without its two ends: the trimmed sequence is two shorter, contains neither
  \<open>start\<close> nor \<open>goal\<close>, and putting \<open>start\<close> and \<open>goal\<close> back around it (in the order the
  \<open>reverse\<close> option asks for) gives the untrimmed sequence.
\<close>

theorem path_trim:
  assumes "path fadd g start goal (ObjArg \<lparr>trim = False, reverse = r, cost = k\<rparr>) = Some (Inr res)"
    and "sequence_of res = Some p"
  shows "\<exists>res' p'. path fadd g start goal (ObjArg \<lparr>trim = True, reverse = r, cost = k\<rparr>) =
                     Some (Inr res') \<and>
           sequence_of res' = Some p' \<and> length p' = length p - 2 \<and>
           start \<notin> set p' \<and> goal \<notin> set p' \<and>
           p = (if r then goal # p' @ [start] else start # p' @ [goal])"
proof -
  from path_found [OF assms] obtain st ns where f: "g \<noteq> []"
    "search_loop fadd g goal (seeded start) = Some (Inr st)" "path_var st = goal # ns"
    "start \<notin> set ns" "goal \<notin> set ns"
    by blast
  with assms(1) have "sequence_of res =
      Some (if r then goal # ns @ [start] else start # rev ns @ [goal])"
    by (cases r; cases k) (auto simp: path_unfold)
  with assms(2) have p: "p = (if r then goal # ns @ [start] else start # rev ns @ [goal])"
    by simp
  let ?p' = "if r then ns else rev ns"
  let ?res' = "if k then WithCost (Some ?p') (totalCost st) else Path ?p'"
  from f have "path fadd g start goal (ObjArg \<lparr>trim = True, reverse = r, cost = k\<rparr>) = Some (Inr ?res')"
    by (simp add: path_unfold)
  moreover have "sequence_of ?res' = Some ?p'" by simp
  moreover have "length ?p' = length p - 2" by (simp add: p)
  moreover have "start \<notin> set ?p'" "goal \<notin> set ?p'" using f by simp_all
  moreover have "p = (if r then goal # ?p' @ [start] else start # ?p' @ [goal])" by (simp add: p)
  ultimately show ?thesis by blast
qed

theorem path_trim_witness:
  "path exact_add example_graph ''A'' ''C'' (ObjArg \<lparr>trim = False, reverse = False, cost = False\<rparr>) =
     Some (Inr (Path [''A'', ''B'', ''C''])) \<and>
   (\<exists>res' p'. path exact_add example_graph ''A'' ''C''
                  (ObjArg \<lparr>trim = True, reverse = False, cost = False\<rparr>) = Some (Inr res') \<and>
      sequence_of res' = Some p' \<and> length p' = 1 \<and> [''A'', ''B'', ''C''] = ''A'' # p' @ [''C''])"
proof -
  have found: "path exact_add example_graph ''A'' ''C''
      (ObjArg \<lparr>trim = False, reverse = False, cost = False\<rparr>) =
        Some (Inr (Path [''A'', ''B'', ''C'']))"
    by code_simp
  have "sequence_of (Path [''A'', ''B'', ''C'']) = Some [''A'', ''B'', ''C'']" by simp
  from path_trim [OF found this] found show ?thesis by simp
qed

text \<open>
  C4 as stated fails. The constructor stores the nested group of the object
  \<^verbatim>\<open>{A: {B: {C: 1}}}\<close> as a nested \<open>Map\<close>. The graph has no edge, so no route from A to Z, and
  \<^verbatim>\<open>path('A', 'Z')\<close> throws a \<open>TypeError\<close>: it adds the nested \<open>Map\<close> to a priority and hands
  the result to \<^verbatim>\<open>set\<close>.
\<close>

theorem path_no_route_counterexample:
  "Graph (Some [(''A'', Obj [(''B'', Obj [(''C'', Leaf (Num (Fin 1)))])])]) =
     Inr \<lparr>graph = [(''A'', Nested [(''B'', Nested [(''C'', Cost (Fin 1))])])], console = []\<rparr> \<and>
   (''A'', ''Z'') \<notin> (edges [(''A'', Nested [(''B'', Nested [(''C'', Cost (Fin 1))])])])\<^sup>+ \<and>
   path exact_add [(''A'', Nested [(''B'', Nested [(''C'', Cost (Fin 1))])])] ''A'' ''Z'' Undefined =
     Some (Inl TypeError)"
proof -
  have "Graph (Some [(''A'', Obj [(''B'', Obj [(''C'', Leaf (Num (Fin 1)))])])]) =
     Inr \<lparr>graph = [(''A'', Nested [(''B'', Nested [(''C'', Cost (Fin 1))])])], console = []\<rparr>"
    by (simp add: Graph_def)
  moreover
  have "(''A'', ''Z'') \<notin> (edges [(''A'', Nested [(''B'', Nested [(''C'', Cost (Fin 1))])])])\<^sup>+"
    by (auto simp: edges_def is_edge_def adjacent_def neighbors_of_def dest!: tranclD)
  moreover have "path exact_add [(''A'', Nested [(''B'', Nested [(''C'', Cost (Fin 1))])])] ''A'' ''Z'' Undefined =
     Some (Inl TypeError)"
    by code_simp
  ultimately show ?thesis by simp
qed

text \<open>
  C4, amended. On a graph with no node, and on a graph in the shape of the data model in
  which no sequence of edges leads from \<open>start\<close> to \<open>goal\<close>, \<^verbatim>\<open>path\<close> returns \<^verbatim>\<open>null\<close>, or
  \<open>path: null\<close> with cost 0 when the cost is requested, and throws nothing.
\<close>

theorem path_no_route:
  assumes "g = [] \<or> flat g \<and> (start, goal) \<notin> (edges g)\<^sup>+"
  shows "path fadd g start goal (ObjArg \<lparr>trim = t, reverse = r, cost = False\<rparr>) = Some (Inr Null) \<and>
         path fadd g start goal (ObjArg \<lparr>trim = t, reverse = r, cost = True\<rparr>) =
           Some (Inr (WithCost None (Fin 0)))"
proof (cases "g = []")
  case True
  then show ?thesis by (simp add: path_unfold)
next
  case False
  with assms have fl: "flat g" and nr: "(start, goal) \<notin> (edges g)\<^sup>+" by auto
  from search_seeded [of fadd g goal start] obtain out where
    out: "search_loop fadd g goal (seeded start) = Some out"
    "case out of Inl e \<Rightarrow> \<not> flat g | Inr st \<Rightarrow> final fadd g start goal st"
    by blast
  with fl obtain st where
    st: "search_loop fadd g goal (seeded start) = Some (Inr st)" and fin: "final fadd g start goal st"
    by (cases out) auto
  have "path_var st = []"
  proof (rule ccontr)
    assume "path_var st \<noteq> []"
    with fin obtain ns where "route fadd g (Fin 0) (start # rev ns @ [goal]) (totalCost st)"
      unfolding final_def by blast
    from route_trancl [OF this] nr show False by simp
  qed
  with False st show ?thesis by (simp add: path_unfold)
qed

theorem path_no_route_witness:
  "flat [(''A'', Nested [(''B'', Cost (Fin 1))]), (''B'', Nested [])] \<and>
   (''B'', ''A'') \<notin> (edges [(''A'', Nested [(''B'', Cost (Fin 1))]), (''B'', Nested [])])\<^sup>+ \<and>
   path exact_add [(''A'', Nested [(''B'', Cost (Fin 1))]), (''B'', Nested [])] ''B'' ''A''
     (ObjArg \<lparr>trim = False, reverse = False, cost = False\<rparr>) = Some (Inr Null) \<and>
   path exact_add [(''A'', Nested [(''B'', Cost (Fin 1))]), (''B'', Nested [])] ''B'' ''A''
     (ObjArg \<lparr>trim = False, reverse = False, cost = True\<rparr>) = Some (Inr (WithCost None (Fin 0))) \<and>
   path exact_add [] ''A'' ''B'' (ObjArg \<lparr>trim = False, reverse = False, cost = True\<rparr>) =
     Some (Inr (WithCost None (Fin 0)))"
proof -
  let ?g = "[(''A'', Nested [(''B'', Cost (Fin 1))]), (''B'', Nested [])]"
  have fl: "flat ?g" by (simp add: flat_def)
  have nr: "(''B'', ''A'') \<notin> (edges ?g)\<^sup>+"
    by (auto simp: edges_def is_edge_def adjacent_def neighbors_of_def dest!: tranclD)
  from fl nr have "?g = [] \<or> flat ?g \<and> (''B'', ''A'') \<notin> (edges ?g)\<^sup>+" by blast
  from path_no_route [where fadd = exact_add and t = False and r = False, OF this]
    path_no_route [where fadd = exact_add and g = "[]" and start = "''A''" and goal = "''B''"
      and t = False and r = False] fl nr
  show ?thesis by simp
qed

text \<open>
  C9 as stated fails. On the graph the constructor builds from \<^verbatim>\<open>{A: {B: 1, G: {C: 2}}}\<close>
  the loop started at A ends in neither of its two terminal states: while the neighbours
  of A are visited, \<^verbatim>\<open>set\<close> throws a \<open>TypeError\<close> for the nested group G.
\<close>

theorem search_raises_counterexample:
  "Graph (Some [(''A'', Obj [(''B'', Leaf (Num (Fin 1))), (''G'', Obj [(''C'', Leaf (Num (Fin 2)))])])]) =
     Inr \<lparr>graph = [(''A'', Nested [(''B'', Cost (Fin 1)), (''G'', Nested [(''C'', Cost (Fin 2))])])],
          console = []\<rparr> \<and>
   search_loop exact_add [(''A'', Nested [(''B'', Cost (Fin 1)), (''G'', Nested [(''C'', Cost (Fin 2))])])] ''C''
     (seeded ''A'') = Some (Inl TypeError)"
proof -
  have "search_loop exact_add [(''A'', Nested [(''B'', Cost (Fin 1)), (''G'', Nested [(''C'', Cost (Fin 2))])])] ''C''
     (seeded ''A'') = Some (Inl TypeError)"
    by (subst search_loop.simps)
      (simp add: seeded_def pq_isEmpty_def loop_body_def pq_next_def neighbors_of_def
        relax_def pq_has_def pq_sort_def Let_def)
  then show ?thesis by (simp add: Graph_def)
qed

text \<open>
  C9, amended. Every query ends: the loop entered by \<^verbatim>\<open>path\<close> stops after finitely many
  iterations, and so \<^verbatim>\<open>path\<close> returns or throws. On a graph in the shape of the data
  model the loop stops without an exception, that is with the goal extracted or the
  frontier exhausted.
\<close>

theorem path_terminates:
  "(\<exists>out. search_loop fadd g goal (seeded start) = Some out \<and> (flat g \<longrightarrow> (\<exists>st. out = Inr st))) \<and>
   (\<exists>res. path fadd g start goal opts = Some res)"
proof -
  from search_seeded [of fadd g goal start] obtain out where
    out: "search_loop fadd g goal (seeded start) = Some out"
    "case out of Inl e \<Rightarrow> \<not> flat g | Inr st \<Rightarrow> final fadd g start goal st"
    by blast
  then have "flat g \<longrightarrow> (\<exists>st. out = Inr st)" by (cases out) auto
  moreover from out(1) have "\<exists>res. path fadd g start goal opts = Some res"
    by (cases out) (simp_all add: path_unfold Let_def)
  ultimately show ?thesis using out(1) by blast
qed

theorem path_terminates_witness:
  "flat example_graph \<and> (\<exists>st. search_loop exact_add example_graph ''C'' (seeded ''A'') = Some (Inr st))"
proof -
  have fl: "flat example_graph" by (simp add: flat_def example_graph_def)
  with path_terminates [of exact_add example_graph "''C''" "''A''" Undefined] show ?thesis by auto
qed

text \<open>
  The example of the specification: the constructor builds the example graph, and the
  route from A to C goes through B and costs 2.
\<close>

lemma example_graph_built:
  "Graph (Some [(''A'', Obj [(''B'', Leaf (Num (Fin 1))), (''C'', Leaf (Num (Fin 4)))]),
                (''B'', Obj [(''C'', Leaf (Num (Fin 1)))]),
                (''C'', Obj [])]) = Inr \<lparr>graph = example_graph, console = []\<rparr>"
  by (simp add: Graph_def example_graph_def)

lemma example_query:
  "path exact_add example_graph ''A'' ''C'' (ObjArg \<lparr>trim = False, reverse = False, cost = True\<rparr>) =
     Some (Inr (WithCost (Some [''A'', ''B'', ''C'']) (Fin 2)))"
  by code_simp

end
